theory Spec2Isabelle
  imports Main "HOL-Library.Word"
begin

unbundle bit_operations_syntax

section \<open>Data model of the row-cache admission policy\<close>

text \<open>
  The model follows \<^verbatim>\<open>src/db/kv_cache_policy.cc\<close> and the header that declares its
  interface. Counters are \<^verbatim>\<open>uint32_t\<close>, so they are \<open>32 word\<close> and \<open>+ 1\<close> wraps at
  \<open>2 ^ 32\<close>. A \<^verbatim>\<open>const void*\<close> is read by the code through
  \<^verbatim>\<open>reinterpret_cast<uint64_t>\<close>, so a database handle is a \<open>64 word\<close>. A
  \<^verbatim>\<open>Slice\<close> and the \<^verbatim>\<open>std::string\<close> it is copied into are byte sequences.
  The mutexes are not modelled: every method holds its shard's lock for its whole body,
  so each call is one atomic step on the state.
\<close>

type_synonym ptr = "64 word"
type_synonym bytes = "8 word list"

text \<open>\<^verbatim>\<open>struct Entry\<close>: both counters start at 0.\<close>

record Entry =
  cached_key_count :: "32 word"
  invalidation_count :: "32 word"

text \<open>\<^verbatim>\<open>struct KVCPKeyCtx\<close> of the header: the key triple a caller passes in.\<close>

record KVCPKeyCtx =
  db_ptr :: ptr
  cf_id :: "32 word"
  user_key :: bytes

text \<open>\<^verbatim>\<open>struct HKey\<close>: the owned copy that is the key of a shard's map.\<close>

record HKey =
  h_db_ptr :: ptr
  h_cf_id :: "32 word"
  h_user_key :: bytes

text \<open>\<^verbatim>\<open>HKey::operator==\<close>, the equality the \<^verbatim>\<open>unordered_map\<close> compares keys with.\<close>

definition HKey_eq :: "HKey \<Rightarrow> HKey \<Rightarrow> bool" where
  "HKey_eq a b \<longleftrightarrow>
     h_db_ptr a = h_db_ptr b \<and> h_cf_id a = h_cf_id b \<and> h_user_key a = h_user_key b"

text \<open>
  \<^verbatim>\<open>Hash64\<close> of \<^verbatim>\<open>util/hash.h\<close> is not among the sources. It is a parameter of the
  model: a function of the key bytes and a seed (the \<^verbatim>\<open>size\<close> argument is the length
  of the bytes).
\<close>

type_synonym hash64 = "bytes \<Rightarrow> 64 word \<Rightarrow> 64 word"

text \<open>
  \<^verbatim>\<open>struct Shard\<close>: the map of one shard. An \<^verbatim>\<open>unordered_map\<close> is a
  partial function on its keys; \<^verbatim>\<open>HKeyHash\<close> chooses the bucket of a key and has no
  part in what a lookup returns, keys being compared with \<^verbatim>\<open>operator==\<close>, which is
  equality of the three fields (\<open>HKey_eq_iff\<close>).
\<close>

type_synonym Shard = "HKey \<rightharpoonup> Entry"

text \<open>\<^verbatim>\<open>class KVCPTable\<close>: its only data member is the vector of shards.\<close>

record KVCPTable =
  shards :: "Shard list"

definition kShards :: nat where
  "kShards = 64"

text \<open>The constructor \<^verbatim>\<open>KVCPTable() : shards_(kShards)\<close>: 64 empty maps.\<close>

definition KVCPTable_new :: KVCPTable where
  "KVCPTable_new = \<lparr>shards = replicate kShards Map.empty\<rparr>"

text \<open>The lambda \<^verbatim>\<open>mix\<close>: \<^verbatim>\<open>h ^= x; h *= 1099511628211ull\<close>.\<close>

definition mix :: "64 word \<Rightarrow> 64 word \<Rightarrow> 64 word" where
  "mix h x = (h XOR x) * 1099511628211"

definition MakeKey :: "KVCPKeyCtx \<Rightarrow> HKey" where
  "MakeKey k = \<lparr>h_db_ptr = db_ptr k, h_cf_id = cf_id k, h_user_key = user_key k\<rparr>"

definition ShardIdx :: "hash64 \<Rightarrow> KVCPKeyCtx \<Rightarrow> nat" where
  "ShardIdx H k =
     (let h0 = 1469598103934665603;
          h1 = mix h0 (db_ptr k);
          h2 = mix h1 (ucast (cf_id k));
          h3 = h2 XOR H (user_key k) 0x9ae16a3b2f90404f;
          h4 = h3 * 1099511628211
      in unat (h4 AND (of_nat kShards - 1)))"

text \<open>
  \<^verbatim>\<open>ShardRef\<close> indexes the vector with \<^verbatim>\<open>ShardIdx\<close>, which is below 64
  (\<open>ShardIdx_less\<close>); the vector has 64 elements from the constructor on
  (\<open>table_ok\<close>, kept by every method), so the index is never out of range.
\<close>

definition ShardRef :: "hash64 \<Rightarrow> KVCPKeyCtx \<Rightarrow> KVCPTable \<Rightarrow> Shard" where
  "ShardRef H k t = shards t ! ShardIdx H k"

definition table_ok :: "KVCPTable \<Rightarrow> bool" where
  "table_ok t \<longleftrightarrow> length (shards t) = kShards"

text \<open>
  What every method starts with: \<^verbatim>\<open>sh.map.find(MakeKey(k))\<close> in the shard of \<open>k\<close>.
  \<open>None\<close> is \<^verbatim>\<open>sh.map.end()\<close>: no Entry exists for the key.
\<close>

definition find_entry :: "hash64 \<Rightarrow> KVCPTable \<Rightarrow> KVCPKeyCtx \<Rightarrow> Entry option" where
  "find_entry H t k = ShardRef H k t (MakeKey k)"

section \<open>The methods of KVCPTable\<close>

text \<open>
  A method that changes the table returns the new table; a method that returns a value
  returns it with the table it leaves behind.
\<close>

definition OnMiss :: "hash64 \<Rightarrow> KVCPKeyCtx \<Rightarrow> KVCPTable \<Rightarrow> KVCPTable" where
  "OnMiss H k t =
     (let i = ShardIdx H k; sh = ShardRef H k t in
      case sh (MakeKey k) of
        None \<Rightarrow> t
      | Some e \<Rightarrow>
          if cached_key_count e > 0
          then t\<lparr>shards := (shards t)
                 [i := sh(MakeKey k \<mapsto> e\<lparr>invalidation_count := invalidation_count e + 1\<rparr>)]\<rparr>
          else t)"

definition ShouldSkipInsert ::
  "hash64 \<Rightarrow> KVCPKeyCtx \<Rightarrow> 32 word \<Rightarrow> KVCPTable \<Rightarrow> bool \<times> KVCPTable" where
  "ShouldSkipInsert H k threshold t =
     (let sh = ShardRef H k t in
      case sh (MakeKey k) of
        None \<Rightarrow> (False, t)
      | Some e \<Rightarrow> (invalidation_count e \<ge> threshold, t))"

text \<open>
  \<^verbatim>\<open>sh.map[MakeKey(k)]\<close> inserts a value-initialised Entry (both counters 0) when
  the key is absent, then the count is incremented.
\<close>

definition OnInsert :: "hash64 \<Rightarrow> KVCPKeyCtx \<Rightarrow> KVCPTable \<Rightarrow> KVCPTable" where
  "OnInsert H k t =
     (let i = ShardIdx H k; sh = ShardRef H k t;
          e = (case sh (MakeKey k) of
                 None \<Rightarrow> \<lparr>cached_key_count = 0, invalidation_count = 0\<rparr>
               | Some e0 \<Rightarrow> e0)
      in t\<lparr>shards := (shards t)
             [i := sh(MakeKey k \<mapsto> e\<lparr>cached_key_count := cached_key_count e + 1\<rparr>)]\<rparr>)"

definition OnEvict :: "hash64 \<Rightarrow> KVCPKeyCtx \<Rightarrow> KVCPTable \<Rightarrow> KVCPTable" where
  "OnEvict H k t =
     (let i = ShardIdx H k; sh = ShardRef H k t in
      case sh (MakeKey k) of
        None \<Rightarrow> t
      | Some e \<Rightarrow>
          if cached_key_count e > 1
          then t\<lparr>shards := (shards t)
                 [i := sh(MakeKey k \<mapsto> e\<lparr>cached_key_count := cached_key_count e - 1\<rparr>)]\<rparr>
          else t\<lparr>shards := (shards t)[i := sh(MakeKey k := None)]\<rparr>)"

definition GetInvalidation ::
  "hash64 \<Rightarrow> KVCPKeyCtx \<Rightarrow> KVCPTable \<Rightarrow> 32 word \<times> KVCPTable" where
  "GetInvalidation H k t =
     (let sh = ShardRef H k t in
      case sh (MakeKey k) of
        None \<Rightarrow> (0, t)
      | Some e \<Rightarrow> (invalidation_count e, t))"

text \<open>The loop over \<^verbatim>\<open>shards_\<close> clears each map in turn.\<close>

definition ClearAll :: "KVCPTable \<Rightarrow> KVCPTable" where
  "ClearAll t = t\<lparr>shards := map (\<lambda>sh. Map.empty) (shards t)\<rparr>"

text \<open>
  Modelled from the spec: the table read behind \<^verbatim>\<open>KVCP_GetCachedKeyCount\<close>. The
  header declares the function, the sources do not define it and \<^verbatim>\<open>KVCPTable\<close> has
  no method for it. The spec: \<open>GetCachedCount(key) -> u32\<close> is a pure read, 0 if absent,
  that reads \<open>cached_count\<close>.
\<close>

definition GetCachedCount ::
  "hash64 \<Rightarrow> KVCPKeyCtx \<Rightarrow> KVCPTable \<Rightarrow> 32 word \<times> KVCPTable" where
  "GetCachedCount H k t =
     (let sh = ShardRef H k t in
      case sh (MakeKey k) of
        None \<Rightarrow> (0, t)
      | Some e \<Rightarrow> (cached_key_count e, t))"

section \<open>The threshold table\<close>

definition kKVCPDefaultThreshold :: "32 word" where
  "kKVCPDefaultThreshold = 3"

record KVCP_TKey =
  t_db_ptr :: ptr
  t_cf_id :: "32 word"

text \<open>\<^verbatim>\<open>KVCP_TKey::operator==\<close>.\<close>

definition KVCP_TKey_eq :: "KVCP_TKey \<Rightarrow> KVCP_TKey \<Rightarrow> bool" where
  "KVCP_TKey_eq a b \<longleftrightarrow> t_db_ptr a = t_db_ptr b \<and> t_cf_id a = t_cf_id b"

text \<open>\<^verbatim>\<open>struct KVCP_TShard\<close>: the atomics are read and written under the shard's lock.\<close>

type_synonym KVCP_TShard = "KVCP_TKey \<rightharpoonup> 32 word"

record KVCP_ThresholdTable =
  tshards :: "KVCP_TShard list"

definition KVCP_ThresholdTable_new :: KVCP_ThresholdTable where
  "KVCP_ThresholdTable_new = \<lparr>tshards = replicate kShards Map.empty\<rparr>"

definition ttable_ok :: "KVCP_ThresholdTable \<Rightarrow> bool" where
  "ttable_ok t \<longleftrightarrow> length (tshards t) = kShards"

definition TShardIdx :: "ptr \<Rightarrow> 32 word \<Rightarrow> nat" where
  "TShardIdx p c =
     (let h0 = 1469598103934665603;
          h1 = mix h0 p;
          h2 = mix h1 (ucast c)
      in unat (h2 AND (of_nat kShards - 1)))"

definition TShardRef :: "ptr \<Rightarrow> 32 word \<Rightarrow> KVCP_ThresholdTable \<Rightarrow> KVCP_TShard" where
  "TShardRef p c t = tshards t ! TShardIdx p c"

text \<open>
  \<^verbatim>\<open>Set\<close>: when the key is absent, \<^verbatim>\<open>sh.map[k]\<close> creates the atomic (its first
  value is overwritten at once) and the value is stored; otherwise the value is stored in
  the atomic found.
\<close>

definition Set_threshold ::
  "ptr \<Rightarrow> 32 word \<Rightarrow> 32 word \<Rightarrow> KVCP_ThresholdTable \<Rightarrow> KVCP_ThresholdTable" where
  "Set_threshold p c v t =
     (let i = TShardIdx p c; sh = TShardRef p c t;
          k = \<lparr>t_db_ptr = p, t_cf_id = c\<rparr>
      in case sh k of
           None \<Rightarrow> (let sh' = sh(k \<mapsto> 0) in t\<lparr>tshards := (tshards t)[i := sh'(k \<mapsto> v)]\<rparr>)
         | Some a \<Rightarrow> t\<lparr>tshards := (tshards t)[i := sh(k \<mapsto> v)]\<rparr>)"

definition Get_threshold ::
  "ptr \<Rightarrow> 32 word \<Rightarrow> KVCP_ThresholdTable \<Rightarrow> 32 word \<times> KVCP_ThresholdTable" where
  "Get_threshold p c t =
     (let sh = TShardRef p c t; k = \<lparr>t_db_ptr = p, t_cf_id = c\<rparr>
      in case sh k of
           None \<Rightarrow> (kKVCPDefaultThreshold, t)
         | Some v \<Rightarrow> (v, t))"

section \<open>The process-wide state and the exported functions\<close>

text \<open>
  The two singletons (\<^verbatim>\<open>KVCPTable::Inst()\<close>, \<^verbatim>\<open>KVCP_ThresholdTable::Inst()\<close>) and
  the hybrid-mode flag make up the state of the policy.
\<close>

text \<open>
  Modelled from the spec: the field \<open>hybrid_enabled\<close>, with \<open>KVCP_SetHybridEnabled\<close> and
  \<open>KVCP_IsHybridEnabled\<close> below. The header declares the two functions, the sources do
  not define them. The spec: one process-wide boolean, a plain read and write, default
  false.
\<close>

record KVCP_state =
  stats :: KVCPTable
  thresholds :: KVCP_ThresholdTable
  hybrid_enabled :: bool

definition KVCP_init :: KVCP_state where
  "KVCP_init =
     \<lparr>stats = KVCPTable_new, thresholds = KVCP_ThresholdTable_new, hybrid_enabled = False\<rparr>"

definition state_ok :: "KVCP_state \<Rightarrow> bool" where
  "state_ok s \<longleftrightarrow> table_ok (stats s) \<and> ttable_ok (thresholds s)"

definition KVCP_OnRowCacheMiss :: "hash64 \<Rightarrow> KVCPKeyCtx \<Rightarrow> KVCP_state \<Rightarrow> KVCP_state" where
  "KVCP_OnRowCacheMiss H k s = s\<lparr>stats := OnMiss H k (stats s)\<rparr>"

definition KVCP_ShouldSkipRowCacheInsert ::
  "hash64 \<Rightarrow> KVCPKeyCtx \<Rightarrow> 32 word \<Rightarrow> KVCP_state \<Rightarrow> bool \<times> KVCP_state" where
  "KVCP_ShouldSkipRowCacheInsert H k threshold s =
     (case ShouldSkipInsert H k threshold (stats s) of (b, t) \<Rightarrow> (b, s\<lparr>stats := t\<rparr>))"

definition KVCP_OnRowCacheInsert :: "hash64 \<Rightarrow> KVCPKeyCtx \<Rightarrow> KVCP_state \<Rightarrow> KVCP_state" where
  "KVCP_OnRowCacheInsert H k s = s\<lparr>stats := OnInsert H k (stats s)\<rparr>"

definition KVCP_OnRowCacheEvict :: "hash64 \<Rightarrow> KVCPKeyCtx \<Rightarrow> KVCP_state \<Rightarrow> KVCP_state" where
  "KVCP_OnRowCacheEvict H k s = s\<lparr>stats := OnEvict H k (stats s)\<rparr>"

definition KVCP_GetInvalidationCount ::
  "hash64 \<Rightarrow> KVCPKeyCtx \<Rightarrow> KVCP_state \<Rightarrow> 32 word \<times> KVCP_state" where
  "KVCP_GetInvalidationCount H k s =
     (case GetInvalidation H k (stats s) of (n, t) \<Rightarrow> (n, s\<lparr>stats := t\<rparr>))"

text \<open>
  Modelled from the spec: \<^verbatim>\<open>KVCP_GetCachedKeyCount\<close>, declared in the header and
  not defined in the sources. The spec: reads \<open>cached_count\<close>, 0 if absent.
\<close>

definition KVCP_GetCachedKeyCount ::
  "hash64 \<Rightarrow> KVCPKeyCtx \<Rightarrow> KVCP_state \<Rightarrow> 32 word \<times> KVCP_state" where
  "KVCP_GetCachedKeyCount H k s =
     (case GetCachedCount H k (stats s) of (n, t) \<Rightarrow> (n, s\<lparr>stats := t\<rparr>))"

definition KVCP_ClearAll :: "KVCP_state \<Rightarrow> KVCP_state" where
  "KVCP_ClearAll s = s\<lparr>stats := ClearAll (stats s)\<rparr>"

definition KVCP_SetThreshold :: "ptr \<Rightarrow> 32 word \<Rightarrow> 32 word \<Rightarrow> KVCP_state \<Rightarrow> KVCP_state" where
  "KVCP_SetThreshold p c v s = s\<lparr>thresholds := Set_threshold p c v (thresholds s)\<rparr>"

definition KVCP_GetThreshold :: "ptr \<Rightarrow> 32 word \<Rightarrow> KVCP_state \<Rightarrow> 32 word \<times> KVCP_state" where
  "KVCP_GetThreshold p c s =
     (case Get_threshold p c (thresholds s) of (v, t) \<Rightarrow> (v, s\<lparr>thresholds := t\<rparr>))"

text \<open>
  Modelled from the spec: \<^verbatim>\<open>KVCP_SetHybridEnabled\<close>, declared in the header and not
  defined in the sources. The spec: a plain write of the flag.
\<close>

definition KVCP_SetHybridEnabled :: "bool \<Rightarrow> KVCP_state \<Rightarrow> KVCP_state" where
  "KVCP_SetHybridEnabled on s = s\<lparr>hybrid_enabled := on\<rparr>"

text \<open>
  Modelled from the spec: \<^verbatim>\<open>KVCP_IsHybridEnabled\<close>, declared in the header and not
  defined in the sources. The spec: a plain read of the flag.
\<close>

definition KVCP_IsHybridEnabled :: "KVCP_state \<Rightarrow> bool \<times> KVCP_state" where
  "KVCP_IsHybridEnabled s = (hybrid_enabled s, s)"

section \<open>Sequences of calls\<close>

text \<open>
  One constructor for each exported function; \<open>step\<close> makes the call and drops the
  value a read returns; \<open>run\<close> makes the calls of a list in order.
\<close>

datatype KVCP_op =
    OpMiss KVCPKeyCtx
  | OpShouldSkip KVCPKeyCtx "32 word"
  | OpInsert KVCPKeyCtx
  | OpEvict KVCPKeyCtx
  | OpGetInvalidation KVCPKeyCtx
  | OpGetCachedKeyCount KVCPKeyCtx
  | OpClearAll
  | OpSetThreshold ptr "32 word" "32 word"
  | OpGetThreshold ptr "32 word"
  | OpSetHybridEnabled bool
  | OpIsHybridEnabled

fun step :: "hash64 \<Rightarrow> KVCP_op \<Rightarrow> KVCP_state \<Rightarrow> KVCP_state" where
  "step H (OpMiss k) s = KVCP_OnRowCacheMiss H k s"
| "step H (OpShouldSkip k th) s = snd (KVCP_ShouldSkipRowCacheInsert H k th s)"
| "step H (OpInsert k) s = KVCP_OnRowCacheInsert H k s"
| "step H (OpEvict k) s = KVCP_OnRowCacheEvict H k s"
| "step H (OpGetInvalidation k) s = snd (KVCP_GetInvalidationCount H k s)"
| "step H (OpGetCachedKeyCount k) s = snd (KVCP_GetCachedKeyCount H k s)"
| "step H OpClearAll s = KVCP_ClearAll s"
| "step H (OpSetThreshold p c v) s = KVCP_SetThreshold p c v s"
| "step H (OpGetThreshold p c) s = snd (KVCP_GetThreshold p c s)"
| "step H (OpSetHybridEnabled b) s = KVCP_SetHybridEnabled b s"
| "step H OpIsHybridEnabled s = snd (KVCP_IsHybridEnabled s)"

definition run :: "hash64 \<Rightarrow> KVCP_op list \<Rightarrow> KVCP_state \<Rightarrow> KVCP_state" where
  "run H ops s = fold (step H) ops s"

text \<open>
  A hash function to evaluate the model on concrete keys (any function would do: no
  property below depends on which one \<^verbatim>\<open>Hash64\<close> is): FNV-1a over the bytes, from
  the seed.
\<close>

definition sample_hash :: hash64 where
  "sample_hash bs seed = fold (\<lambda>b h. mix h (ucast b)) bs seed"

definition key_a :: KVCPKeyCtx where
  "key_a = \<lparr>db_ptr = 4096, cf_id = 0, user_key = [97, 98, 99]\<rparr>"

definition key_b :: KVCPKeyCtx where
  "key_b = \<lparr>db_ptr = 4096, cf_id = 1, user_key = [97, 98, 99]\<rparr>"

section \<open>Reading the tables\<close>

text \<open>
  What \<^verbatim>\<open>Set\<close> and \<^verbatim>\<open>Get\<close> start with: \<^verbatim>\<open>sh.map.find(k)\<close> in the shard of
  \<open>(db_ptr, cf_id)\<close>.
\<close>

definition find_threshold :: "KVCP_ThresholdTable \<Rightarrow> ptr \<Rightarrow> 32 word \<Rightarrow> 32 word option" where
  "find_threshold t p c = TShardRef p c t \<lparr>t_db_ptr = p, t_cf_id = c\<rparr>"

section \<open>Vocabulary of the properties\<close>

text \<open>
  The value of the most recent \<^verbatim>\<open>KVCP_SetThreshold\<close> call for \<open>(p, c)\<close> in a list
  of calls, \<open>None\<close> when the list has none. It is written from the words "the most recent
  SetThreshold", to be compared with what \<^verbatim>\<open>KVCP_GetThreshold\<close> returns.
\<close>

fun last_set :: "ptr \<Rightarrow> 32 word \<Rightarrow> KVCP_op list \<Rightarrow> 32 word option" where
  "last_set p c [] = None"
| "last_set p c (OpSetThreshold p' c' v # ops) =
     (case last_set p c ops of
        Some w \<Rightarrow> Some w
      | None \<Rightarrow> if p' = p \<and> c' = c then Some v else None)"
| "last_set p c (op # ops) = last_set p c ops"

text \<open>
  The invariant of the data model for one key, in the words of the spec: an Entry exists
  if and only if the cached count that is read for the key is at least 1.
\<close>

definition entry_inv :: "hash64 \<Rightarrow> KVCP_state \<Rightarrow> KVCPKeyCtx \<Rightarrow> bool" where
  "entry_inv H s k \<longleftrightarrow>
     ((find_entry H (stats s) k \<noteq> None) = (1 \<le> fst (KVCP_GetCachedKeyCount H k s)))"

text \<open>The calls that write or read the hybrid-mode flag.\<close>

fun hybrid_op :: "KVCP_op \<Rightarrow> bool" where
  "hybrid_op (OpSetHybridEnabled b) = True"
| "hybrid_op OpIsHybridEnabled = True"
| "hybrid_op op = False"

section \<open>Basic facts\<close>

lemma HKey_eq_iff: "HKey_eq a b \<longleftrightarrow> a = b"
  by (cases a, cases b) (simp add: HKey_eq_def)

lemma KVCP_TKey_eq_iff: "KVCP_TKey_eq a b \<longleftrightarrow> a = b"
  by (cases a, cases b) (simp add: KVCP_TKey_eq_def)

lemma MakeKey_inject: "MakeKey k = MakeKey k' \<longleftrightarrow> k = k'"
  by (cases k, cases k') (simp add: MakeKey_def)

lemma and_mask_less: "unat ((h :: 64 word) AND (of_nat kShards - 1)) < kShards"
proof -
  have "h AND 63 \<le> 63"
    by (rule word_and_le1)
  then have "unat (h AND 63) \<le> 63"
    by (simp add: word_le_nat_alt)
  then show ?thesis
    by (simp add: kShards_def)
qed

lemma ShardIdx_less: "ShardIdx H k < kShards"
  unfolding ShardIdx_def Let_def by (rule and_mask_less)

lemma TShardIdx_less: "TShardIdx p c < kShards"
  unfolding TShardIdx_def Let_def by (rule and_mask_less)

subsection \<open>The table as a function of the key\<close>

lemma table_ok_new: "table_ok KVCPTable_new"
  by (simp add: table_ok_def KVCPTable_new_def)

lemma find_entry_new: "find_entry H KVCPTable_new k = None"
  using ShardIdx_less [of H k]
  by (simp add: find_entry_def ShardRef_def KVCPTable_new_def)

lemma find_entry_shard_update:
  assumes "table_ok t"
  shows "find_entry H (t\<lparr>shards := (shards t)[ShardIdx H k := (ShardRef H k t)(MakeKey k := v)]\<rparr>) k'
         = (if k' = k then v else find_entry H t k')"
proof (cases "k' = k")
  case True
  with assms ShardIdx_less [of H k] show ?thesis
    by (simp add: find_entry_def ShardRef_def table_ok_def)
next
  case False
  then have neq: "MakeKey k' \<noteq> MakeKey k" by (simp add: MakeKey_inject)
  show ?thesis
  proof (cases "ShardIdx H k' = ShardIdx H k")
    case True
    with assms neq False ShardIdx_less [of H k] show ?thesis
      by (simp add: find_entry_def ShardRef_def table_ok_def)
  next
    case idx: False
    with False show ?thesis
      by (simp add: find_entry_def ShardRef_def)
  qed
qed

lemma table_ok_OnMiss: "table_ok (OnMiss H k t) = table_ok t"
  by (simp add: OnMiss_def Let_def table_ok_def split: option.split)

lemma table_ok_OnInsert: "table_ok (OnInsert H k t) = table_ok t"
  by (simp add: OnInsert_def Let_def table_ok_def)

lemma table_ok_OnEvict: "table_ok (OnEvict H k t) = table_ok t"
  by (simp add: OnEvict_def Let_def table_ok_def split: option.split)

lemma table_ok_ClearAll: "table_ok (ClearAll t) = table_ok t"
  by (simp add: ClearAll_def table_ok_def)

lemma find_entry_OnInsert:
  assumes "table_ok t"
  shows "find_entry H (OnInsert H k t) k' =
     (if k' = k
      then Some (case find_entry H t k of
                   None \<Rightarrow> \<lparr>cached_key_count = 1, invalidation_count = 0\<rparr>
                 | Some e \<Rightarrow> e\<lparr>cached_key_count := cached_key_count e + 1\<rparr>)
      else find_entry H t k')"
proof -
  have "OnInsert H k t = t\<lparr>shards := (shards t)[ShardIdx H k := (ShardRef H k t)(MakeKey k :=
      Some (case find_entry H t k of
                   None \<Rightarrow> \<lparr>cached_key_count = 1, invalidation_count = 0\<rparr>
                 | Some e \<Rightarrow> e\<lparr>cached_key_count := cached_key_count e + 1\<rparr>))]\<rparr>"
    by (simp add: OnInsert_def Let_def find_entry_def split: option.split)
  then show ?thesis
    using find_entry_shard_update [OF assms] by simp
qed

lemma find_entry_OnMiss:
  assumes "table_ok t"
  shows "find_entry H (OnMiss H k t) k' =
     (if k' = k
      then (case find_entry H t k of
              None \<Rightarrow> None
            | Some e \<Rightarrow>
                if cached_key_count e > 0
                then Some (e\<lparr>invalidation_count := invalidation_count e + 1\<rparr>)
                else Some e)
      else find_entry H t k')"
proof (cases "find_entry H t k")
  case None
  then have "OnMiss H k t = t"
    by (simp add: OnMiss_def Let_def find_entry_def)
  with None show ?thesis by simp
next
  case (Some e)
  show ?thesis
  proof (cases "cached_key_count e > 0")
    case True
    with Some have "OnMiss H k t = t\<lparr>shards := (shards t)[ShardIdx H k := (ShardRef H k t)
        (MakeKey k := Some (e\<lparr>invalidation_count := invalidation_count e + 1\<rparr>))]\<rparr>"
      by (simp add: OnMiss_def Let_def find_entry_def)
    with Some True show ?thesis
      using find_entry_shard_update [OF assms] by simp
  next
    case False
    with Some have "OnMiss H k t = t"
      by (simp add: OnMiss_def Let_def find_entry_def)
    with Some False show ?thesis by simp
  qed
qed

lemma find_entry_OnEvict:
  assumes "table_ok t"
  shows "find_entry H (OnEvict H k t) k' =
     (if k' = k
      then (case find_entry H t k of
              None \<Rightarrow> None
            | Some e \<Rightarrow>
                if cached_key_count e > 1
                then Some (e\<lparr>cached_key_count := cached_key_count e - 1\<rparr>)
                else None)
      else find_entry H t k')"
proof (cases "find_entry H t k")
  case None
  then have "OnEvict H k t = t"
    by (simp add: OnEvict_def Let_def find_entry_def)
  with None show ?thesis by simp
next
  case (Some e)
  then have "OnEvict H k t = t\<lparr>shards := (shards t)[ShardIdx H k := (ShardRef H k t)
      (MakeKey k := (if cached_key_count e > 1
                     then Some (e\<lparr>cached_key_count := cached_key_count e - 1\<rparr>)
                     else None))]\<rparr>"
    by (simp add: OnEvict_def Let_def find_entry_def)
  with Some show ?thesis
    using find_entry_shard_update [OF assms] by simp
qed

lemma find_entry_ClearAll:
  assumes "table_ok t"
  shows "find_entry H (ClearAll t) k = None"
  using assms ShardIdx_less [of H k]
  by (simp add: find_entry_def ShardRef_def ClearAll_def table_ok_def)

lemma ShouldSkipInsert_find:
  "ShouldSkipInsert H k th t =
     ((case find_entry H t k of None \<Rightarrow> False | Some e \<Rightarrow> th \<le> invalidation_count e), t)"
  by (simp add: ShouldSkipInsert_def find_entry_def Let_def split: option.split)

lemma GetInvalidation_find:
  "GetInvalidation H k t =
     ((case find_entry H t k of None \<Rightarrow> 0 | Some e \<Rightarrow> invalidation_count e), t)"
  by (simp add: GetInvalidation_def find_entry_def Let_def split: option.split)

lemma GetCachedCount_find:
  "GetCachedCount H k t =
     ((case find_entry H t k of None \<Rightarrow> 0 | Some e \<Rightarrow> cached_key_count e), t)"
  by (simp add: GetCachedCount_def find_entry_def Let_def split: option.split)

lemma ShardIdx_key_a: "ShardIdx sample_hash key_a = 14"
  by (simp add: ShardIdx_def sample_hash_def key_a_def mix_def kShards_def)

lemma ShardIdx_key_b: "ShardIdx sample_hash key_b = 11"
  by (simp add: ShardIdx_def sample_hash_def key_b_def mix_def kShards_def)

lemma key_a_neq_key_b: "key_a \<noteq> key_b"
  by (simp add: key_a_def key_b_def)

subsection \<open>The threshold table as a function of the key\<close>

lemma ttable_ok_new: "ttable_ok KVCP_ThresholdTable_new"
  by (simp add: ttable_ok_def KVCP_ThresholdTable_new_def)

lemma find_threshold_new: "find_threshold KVCP_ThresholdTable_new p c = None"
  using TShardIdx_less [of p c]
  by (simp add: find_threshold_def TShardRef_def KVCP_ThresholdTable_new_def)

lemma ttable_ok_Set: "ttable_ok (Set_threshold p c v t) = ttable_ok t"
  by (simp add: Set_threshold_def Let_def ttable_ok_def split: option.split)

lemma Set_threshold_update:
  "Set_threshold p c v t =
     t\<lparr>tshards := (tshards t)[TShardIdx p c := (TShardRef p c t)(\<lparr>t_db_ptr = p, t_cf_id = c\<rparr> \<mapsto> v)]\<rparr>"
  by (simp add: Set_threshold_def Let_def split: option.split)

lemma find_threshold_Set:
  assumes "ttable_ok t"
  shows "find_threshold (Set_threshold p c v t) p' c' =
     (if p' = p \<and> c' = c then Some v else find_threshold t p' c')"
proof (cases "p' = p \<and> c' = c")
  case True
  with assms TShardIdx_less [of p c] show ?thesis
    by (simp add: Set_threshold_update find_threshold_def TShardRef_def ttable_ok_def)
next
  case False
  then have neq: "\<lparr>t_db_ptr = p', t_cf_id = c'\<rparr> \<noteq> \<lparr>t_db_ptr = p, t_cf_id = c\<rparr>" by simp
  show ?thesis
  proof (cases "TShardIdx p' c' = TShardIdx p c")
    case True
    with assms neq False TShardIdx_less [of p c] show ?thesis
      by (auto simp: Set_threshold_update find_threshold_def TShardRef_def ttable_ok_def)
  next
    case idx: False
    with False show ?thesis
      by (auto simp: Set_threshold_update find_threshold_def TShardRef_def)
  qed
qed

lemma Get_threshold_find:
  "Get_threshold p c t =
     ((case find_threshold t p c of None \<Rightarrow> kKVCPDefaultThreshold | Some v \<Rightarrow> v), t)"
  by (simp add: Get_threshold_def find_threshold_def Let_def split: option.split)

subsection \<open>The exported functions on the state\<close>

lemma state_ok_init: "state_ok KVCP_init"
  by (simp add: state_ok_def KVCP_init_def table_ok_new ttable_ok_new)

lemma state_ok_step: "state_ok (step H op s) = state_ok s"
  by (cases op)
     (simp_all add: state_ok_def KVCP_OnRowCacheMiss_def KVCP_ShouldSkipRowCacheInsert_def
        KVCP_OnRowCacheInsert_def KVCP_OnRowCacheEvict_def KVCP_GetInvalidationCount_def
        KVCP_GetCachedKeyCount_def KVCP_ClearAll_def KVCP_SetThreshold_def
        KVCP_GetThreshold_def KVCP_SetHybridEnabled_def KVCP_IsHybridEnabled_def
        ShouldSkipInsert_find GetInvalidation_find GetCachedCount_find Get_threshold_find
        table_ok_OnMiss table_ok_OnInsert table_ok_OnEvict table_ok_ClearAll ttable_ok_Set)

lemma run_Nil: "run H [] s = s"
  by (simp add: run_def)

lemma run_snoc: "run H (ops @ [op]) s = step H op (run H ops s)"
  by (simp add: run_def)

lemma run_Cons: "run H (op # ops) s = run H ops (step H op s)"
  by (simp add: run_def)

lemma state_ok_run: "state_ok (run H ops s) = state_ok s"
  by (induction ops arbitrary: s) (simp_all add: run_Nil run_Cons state_ok_step)

lemma ShouldSkip_state:
  "KVCP_ShouldSkipRowCacheInsert H k th s =
     ((case find_entry H (stats s) k of None \<Rightarrow> False | Some e \<Rightarrow> th \<le> invalidation_count e), s)"
  by (simp add: KVCP_ShouldSkipRowCacheInsert_def ShouldSkipInsert_find)

lemma GetInvalidationCount_state:
  "KVCP_GetInvalidationCount H k s =
     ((case find_entry H (stats s) k of None \<Rightarrow> 0 | Some e \<Rightarrow> invalidation_count e), s)"
  by (simp add: KVCP_GetInvalidationCount_def GetInvalidation_find)

lemma GetCachedKeyCount_state:
  "KVCP_GetCachedKeyCount H k s =
     ((case find_entry H (stats s) k of None \<Rightarrow> 0 | Some e \<Rightarrow> cached_key_count e), s)"
  by (simp add: KVCP_GetCachedKeyCount_def GetCachedCount_find)

lemma GetThreshold_state:
  "KVCP_GetThreshold p c s =
     ((case find_threshold (thresholds s) p c of None \<Rightarrow> kKVCPDefaultThreshold | Some v \<Rightarrow> v), s)"
  by (simp add: KVCP_GetThreshold_def Get_threshold_find)

lemma stats_init: "stats KVCP_init = KVCPTable_new"
  by (simp add: KVCP_init_def)

lemma thresholds_init: "thresholds KVCP_init = KVCP_ThresholdTable_new"
  by (simp add: KVCP_init_def)

lemma find_entry_init: "find_entry H (stats KVCP_init) k = None"
  by (simp add: stats_init find_entry_new)

lemma find_entry_Insert_init:
  "find_entry H (stats (KVCP_OnRowCacheInsert H k KVCP_init)) k =
     Some \<lparr>cached_key_count = 1, invalidation_count = 0\<rparr>"
  by (simp add: KVCP_OnRowCacheInsert_def stats_init find_entry_OnInsert table_ok_new
      find_entry_new)

section \<open>The admission decision\<close>

text \<open>
  Claim C1. For every key triple and every threshold \<open>t\<close>, \<open>t = 0\<close> included,
  \<^verbatim>\<open>KVCP_ShouldSkipRowCacheInsert\<close> returns true if and only if an Entry exists for
  the key and its \<open>invalidation_count\<close> is at least \<open>t\<close>. It returns false when no
  Entry exists, also for \<open>t = 0\<close>; it returns true for \<open>t = 0\<close> when an Entry exists,
  whatever its counters; and it leaves the whole state as it was.
\<close>

theorem ShouldSkipRowCacheInsert_iff:
  "(fst (KVCP_ShouldSkipRowCacheInsert H k t s) \<longleftrightarrow>
      (\<exists>e. find_entry H (stats s) k = Some e \<and> t \<le> invalidation_count e)) \<and>
   (find_entry H (stats s) k = None \<longrightarrow> \<not> fst (KVCP_ShouldSkipRowCacheInsert H k 0 s)) \<and>
   (find_entry H (stats s) k \<noteq> None \<longrightarrow> fst (KVCP_ShouldSkipRowCacheInsert H k 0 s)) \<and>
   snd (KVCP_ShouldSkipRowCacheInsert H k t s) = s"
  by (auto simp: ShouldSkip_state split: option.splits)

text \<open>
  On the empty table the answer for threshold 0 is false; after one insert of the key it
  is true for threshold 0 and false for threshold 1.
\<close>

theorem ShouldSkipRowCacheInsert_iff_witness:
  "\<not> fst (KVCP_ShouldSkipRowCacheInsert sample_hash key_a 0 KVCP_init) \<and>
   fst (KVCP_ShouldSkipRowCacheInsert sample_hash key_a 0
          (KVCP_OnRowCacheInsert sample_hash key_a KVCP_init)) \<and>
   \<not> fst (KVCP_ShouldSkipRowCacheInsert sample_hash key_a 1
          (KVCP_OnRowCacheInsert sample_hash key_a KVCP_init))"
  using ShouldSkipRowCacheInsert_iff [of sample_hash key_a 0 KVCP_init]
    ShouldSkipRowCacheInsert_iff [of sample_hash key_a 0
      "KVCP_OnRowCacheInsert sample_hash key_a KVCP_init"]
    ShouldSkipRowCacheInsert_iff [of sample_hash key_a 1
      "KVCP_OnRowCacheInsert sample_hash key_a KVCP_init"]
  by (simp add: find_entry_init find_entry_Insert_init)

subsection \<open>One call, seen from a key\<close>

lemma stats_Insert: "stats (KVCP_OnRowCacheInsert H k s) = OnInsert H k (stats s)"
  by (simp add: KVCP_OnRowCacheInsert_def)

lemma stats_Miss: "stats (KVCP_OnRowCacheMiss H k s) = OnMiss H k (stats s)"
  by (simp add: KVCP_OnRowCacheMiss_def)

lemma stats_Evict: "stats (KVCP_OnRowCacheEvict H k s) = OnEvict H k (stats s)"
  by (simp add: KVCP_OnRowCacheEvict_def)

lemma stats_ClearAll: "stats (KVCP_ClearAll s) = ClearAll (stats s)"
  by (simp add: KVCP_ClearAll_def)

lemma state_ok_table: "state_ok s \<Longrightarrow> table_ok (stats s)"
  by (simp add: state_ok_def)

lemma state_ok_ttable: "state_ok s \<Longrightarrow> ttable_ok (thresholds s)"
  by (simp add: state_ok_def)

lemma state_ok_Insert: "state_ok (KVCP_OnRowCacheInsert H k s) = state_ok s"
  using state_ok_step [of H "OpInsert k" s] by simp

lemma state_ok_Miss: "state_ok (KVCP_OnRowCacheMiss H k s) = state_ok s"
  using state_ok_step [of H "OpMiss k" s] by simp

lemma state_ok_Evict: "state_ok (KVCP_OnRowCacheEvict H k s) = state_ok s"
  using state_ok_step [of H "OpEvict k" s] by simp

lemma state_ok_ClearAll: "state_ok (KVCP_ClearAll s) = state_ok s"
  using state_ok_step [of H OpClearAll s] by simp

lemma state_ok_SetThreshold: "state_ok (KVCP_SetThreshold p c v s) = state_ok s"
  using state_ok_step [of H "OpSetThreshold p c v" s] by simp

text \<open>The reads return the state they were given.\<close>

lemma snd_ShouldSkip: "snd (KVCP_ShouldSkipRowCacheInsert H k th s) = s"
  by (simp add: ShouldSkip_state)

lemma snd_GetInvalidationCount: "snd (KVCP_GetInvalidationCount H k s) = s"
  by (simp add: GetInvalidationCount_state)

lemma snd_GetCachedKeyCount: "snd (KVCP_GetCachedKeyCount H k s) = s"
  by (simp add: GetCachedKeyCount_state)

lemma snd_GetThreshold: "snd (KVCP_GetThreshold p c s) = s"
  by (simp add: GetThreshold_state)

lemma snd_IsHybridEnabled: "snd (KVCP_IsHybridEnabled s) = s"
  by (simp add: KVCP_IsHybridEnabled_def)

lemmas snd_reads = snd_ShouldSkip snd_GetInvalidationCount snd_GetCachedKeyCount
  snd_GetThreshold snd_IsHybridEnabled

lemma stats_SetThreshold: "stats (KVCP_SetThreshold p c v s) = stats s"
  by (simp add: KVCP_SetThreshold_def)

lemma stats_SetHybridEnabled: "stats (KVCP_SetHybridEnabled b s) = stats s"
  by (simp add: KVCP_SetHybridEnabled_def)

text \<open>
  Claim C3. For every key triple, \<^verbatim>\<open>KVCP_OnRowCacheInsert\<close> creates the key's Entry
  with \<open>cached_key_count = 1\<close> and \<open>invalidation_count = 0\<close> when no Entry exists, and
  otherwise adds one to \<open>cached_key_count\<close> (a \<^verbatim>\<open>uint32_t\<close> increment) and leaves
  \<open>invalidation_count\<close> as it is. No other call creates an Entry: a key that has none
  before a call other than an insert of that key has none after it.
\<close>

theorem OnRowCacheInsert_entry:
  assumes "state_ok s"
  shows
    "(find_entry H (stats s) k = None \<longrightarrow>
        find_entry H (stats (KVCP_OnRowCacheInsert H k s)) k =
          Some \<lparr>cached_key_count = 1, invalidation_count = 0\<rparr>) \<and>
     (\<forall>e. find_entry H (stats s) k = Some e \<longrightarrow>
        find_entry H (stats (KVCP_OnRowCacheInsert H k s)) k =
          Some \<lparr>cached_key_count = cached_key_count e + 1,
                invalidation_count = invalidation_count e\<rparr>) \<and>
     (\<forall>op. op \<noteq> OpInsert k \<longrightarrow> find_entry H (stats s) k = None \<longrightarrow>
        find_entry H (stats (step H op s)) k = None)"
proof (intro conjI allI impI)
  assume "find_entry H (stats s) k = None"
  then show "find_entry H (stats (KVCP_OnRowCacheInsert H k s)) k =
      Some \<lparr>cached_key_count = 1, invalidation_count = 0\<rparr>"
    by (simp add: stats_Insert find_entry_OnInsert state_ok_table [OF assms])
next
  fix e assume "find_entry H (stats s) k = Some e"
  then show "find_entry H (stats (KVCP_OnRowCacheInsert H k s)) k =
      Some \<lparr>cached_key_count = cached_key_count e + 1,
            invalidation_count = invalidation_count e\<rparr>"
    by (cases e) (simp add: stats_Insert find_entry_OnInsert state_ok_table [OF assms])
next
  fix op assume op: "op \<noteq> OpInsert k" and absent: "find_entry H (stats s) k = None"
  note ok = state_ok_table [OF assms]
  show "find_entry H (stats (step H op s)) k = None"
  proof (cases op)
    case (OpMiss k')
    with absent show ?thesis by (auto simp: stats_Miss find_entry_OnMiss ok)
  next
    case (OpInsert k')
    with absent op show ?thesis by (auto simp: stats_Insert find_entry_OnInsert ok)
  next
    case (OpEvict k')
    with absent show ?thesis by (auto simp: stats_Evict find_entry_OnEvict ok)
  next
    case OpClearAll
    then show ?thesis by (simp add: stats_ClearAll find_entry_ClearAll ok)
  qed (use absent in \<open>simp_all add: snd_reads stats_SetThreshold stats_SetHybridEnabled\<close>)
qed

theorem OnRowCacheInsert_entry_witness:
  "state_ok KVCP_init \<and>
   find_entry sample_hash (stats KVCP_init) key_a = None \<and>
   find_entry sample_hash (stats (KVCP_OnRowCacheInsert sample_hash key_a KVCP_init)) key_a =
     Some \<lparr>cached_key_count = 1, invalidation_count = 0\<rparr> \<and>
   find_entry sample_hash (stats (KVCP_OnRowCacheInsert sample_hash key_a
       (KVCP_OnRowCacheInsert sample_hash key_a KVCP_init))) key_a =
     Some \<lparr>cached_key_count = 2, invalidation_count = 0\<rparr> \<and>
   find_entry sample_hash (stats (step sample_hash (OpInsert key_b) KVCP_init)) key_a = None"
proof -
  note first = OnRowCacheInsert_entry [OF state_ok_init, of sample_hash key_a]
  have ok: "state_ok (KVCP_OnRowCacheInsert sample_hash key_a KVCP_init)"
    by (simp add: state_ok_Insert state_ok_init)
  note second = OnRowCacheInsert_entry [OF ok, of sample_hash key_a]
  have absent: "find_entry sample_hash (stats KVCP_init) key_a = None"
    by (rule find_entry_init)
  have one: "find_entry sample_hash
      (stats (KVCP_OnRowCacheInsert sample_hash key_a KVCP_init)) key_a =
      Some \<lparr>cached_key_count = 1, invalidation_count = 0\<rparr>"
    using first absent by blast
  have two: "find_entry sample_hash (stats (KVCP_OnRowCacheInsert sample_hash key_a
      (KVCP_OnRowCacheInsert sample_hash key_a KVCP_init))) key_a =
      Some \<lparr>cached_key_count = 2, invalidation_count = 0\<rparr>"
    using second one by simp
  have "OpInsert key_b \<noteq> OpInsert key_a"
    using key_a_neq_key_b by simp
  with first absent
  have other: "find_entry sample_hash (stats (step sample_hash (OpInsert key_b) KVCP_init))
      key_a = None"
    by blast
  from state_ok_init absent one two other show ?thesis by blast
qed

section \<open>The cached-count getter\<close>

text \<open>
  Claim C8. For every key triple, \<^verbatim>\<open>KVCP_GetCachedKeyCount\<close> returns the key's
  current \<open>cached_key_count\<close>, returns 0 when no Entry exists for the key, and leaves the
  state as it was. (The function is declared in the header and defined nowhere in the
  sources; this is the function as the spec describes it.)
\<close>

theorem GetCachedKeyCount_reads:
  "(find_entry H (stats s) k = None \<longrightarrow> fst (KVCP_GetCachedKeyCount H k s) = 0) \<and>
   (\<forall>e. find_entry H (stats s) k = Some e \<longrightarrow>
      fst (KVCP_GetCachedKeyCount H k s) = cached_key_count e) \<and>
   snd (KVCP_GetCachedKeyCount H k s) = s"
  by (simp add: GetCachedKeyCount_state)

theorem GetCachedKeyCount_reads_witness:
  "fst (KVCP_GetCachedKeyCount sample_hash key_a KVCP_init) = 0 \<and>
   fst (KVCP_GetCachedKeyCount sample_hash key_a
          (KVCP_OnRowCacheInsert sample_hash key_a KVCP_init)) = 1"
  using GetCachedKeyCount_reads [of sample_hash KVCP_init key_a]
    GetCachedKeyCount_reads [of sample_hash
      "KVCP_OnRowCacheInsert sample_hash key_a KVCP_init" key_a]
  by (simp add: find_entry_init find_entry_Insert_init)

section \<open>The hybrid-mode flag\<close>

lemma hybrid_step:
  "\<not> hybrid_op op \<Longrightarrow>
   step H op (KVCP_SetHybridEnabled b s) = KVCP_SetHybridEnabled b (step H op s)"
  by (cases op)
     (simp_all add: snd_reads KVCP_SetHybridEnabled_def KVCP_OnRowCacheMiss_def
        KVCP_OnRowCacheInsert_def KVCP_OnRowCacheEvict_def KVCP_ClearAll_def
        KVCP_SetThreshold_def)

lemma thresholds_SetHybridEnabled: "thresholds (KVCP_SetHybridEnabled b s) = thresholds s"
  by (simp add: KVCP_SetHybridEnabled_def)

lemma hybrid_enabled_step:
  "(\<forall>b. op \<noteq> OpSetHybridEnabled b) \<Longrightarrow> hybrid_enabled (step H op s) = hybrid_enabled s"
  by (cases op)
     (auto simp: snd_reads KVCP_OnRowCacheMiss_def KVCP_OnRowCacheInsert_def
        KVCP_OnRowCacheEvict_def KVCP_ClearAll_def KVCP_SetThreshold_def)

lemma hybrid_enabled_run:
  "(\<forall>b. OpSetHybridEnabled b \<notin> set ops) \<Longrightarrow>
   hybrid_enabled (run H ops s) = hybrid_enabled s"
proof (induction ops arbitrary: s)
  case Nil
  show ?case by (simp add: run_Nil)
next
  case (Cons op ops)
  from Cons.prems have "\<forall>b. op \<noteq> OpSetHybridEnabled b"
    and "\<forall>b. OpSetHybridEnabled b \<notin> set ops"
    by auto
  then show ?case
    by (simp add: run_Cons Cons.IH hybrid_enabled_step del: step.simps)
qed

lemma hybrid_never_set:
  "(\<forall>b. OpSetHybridEnabled b \<notin> set ops) \<Longrightarrow>
   \<not> fst (KVCP_IsHybridEnabled (run H ops KVCP_init))"
  by (simp add: KVCP_IsHybridEnabled_def hybrid_enabled_run) (simp add: KVCP_init_def)

text \<open>
  Claim C9. \<^verbatim>\<open>KVCP_IsHybridEnabled\<close> returns false in the initial state and after
  any calls from it that do not set the flag, and returns
  \<open>b\<close> after \<^verbatim>\<open>KVCP_SetHybridEnabled(b)\<close>. The flag affects no other operation:
  every other call does to a state with the flag set to \<open>b\<close> what it does to the state
  itself (the flag apart, which it keeps), each read returns the same value whatever the
  flag is, and setting the flag changes neither table. (The two functions are declared in
  the header and defined nowhere in the sources; the flag is as the spec describes it.)
\<close>

theorem HybridEnabled_roundtrip:
  "\<not> fst (KVCP_IsHybridEnabled KVCP_init) \<and>
   fst (KVCP_IsHybridEnabled (KVCP_SetHybridEnabled b s)) = b \<and>
   snd (KVCP_IsHybridEnabled s) = s \<and>
   stats (KVCP_SetHybridEnabled b s) = stats s \<and>
   thresholds (KVCP_SetHybridEnabled b s) = thresholds s \<and>
   (\<forall>op. \<not> hybrid_op op \<longrightarrow>
      step H op (KVCP_SetHybridEnabled b s) = KVCP_SetHybridEnabled b (step H op s)) \<and>
   fst (KVCP_ShouldSkipRowCacheInsert H k t (KVCP_SetHybridEnabled b s)) =
     fst (KVCP_ShouldSkipRowCacheInsert H k t s) \<and>
   fst (KVCP_GetInvalidationCount H k (KVCP_SetHybridEnabled b s)) =
     fst (KVCP_GetInvalidationCount H k s) \<and>
   fst (KVCP_GetCachedKeyCount H k (KVCP_SetHybridEnabled b s)) =
     fst (KVCP_GetCachedKeyCount H k s) \<and>
   fst (KVCP_GetThreshold p c (KVCP_SetHybridEnabled b s)) = fst (KVCP_GetThreshold p c s) \<and>
   ((\<forall>b'. OpSetHybridEnabled b' \<notin> set ops) \<longrightarrow>
      \<not> fst (KVCP_IsHybridEnabled (run H ops KVCP_init)))"
  by (simp add: hybrid_step ShouldSkip_state GetInvalidationCount_state
      GetCachedKeyCount_state GetThreshold_state stats_SetHybridEnabled
      thresholds_SetHybridEnabled snd_IsHybridEnabled hybrid_never_set)
     (simp add: KVCP_IsHybridEnabled_def KVCP_SetHybridEnabled_def KVCP_init_def)

theorem HybridEnabled_roundtrip_witness:
  "\<not> fst (KVCP_IsHybridEnabled KVCP_init) \<and>
   fst (KVCP_IsHybridEnabled (KVCP_SetHybridEnabled True KVCP_init)) \<and>
   \<not> fst (KVCP_IsHybridEnabled (KVCP_SetHybridEnabled False
          (KVCP_SetHybridEnabled True KVCP_init))) \<and>
   step sample_hash (OpInsert key_a) (KVCP_SetHybridEnabled True KVCP_init) =
     KVCP_SetHybridEnabled True (step sample_hash (OpInsert key_a) KVCP_init) \<and>
   \<not> fst (KVCP_IsHybridEnabled
          (run sample_hash [OpInsert key_a, OpIsHybridEnabled, OpClearAll] KVCP_init))"
proof -
  note a = HybridEnabled_roundtrip [of True KVCP_init sample_hash key_a 0 0 0
      "[OpInsert key_a, OpIsHybridEnabled, OpClearAll]"]
  have unset: "\<forall>b'. OpSetHybridEnabled b' \<notin> set [OpInsert key_a, OpIsHybridEnabled, OpClearAll]"
    by simp
  note b = HybridEnabled_roundtrip
    [of False "KVCP_SetHybridEnabled True KVCP_init" sample_hash key_a 0 0 0]
  have "\<not> hybrid_op (OpInsert key_a)" by simp
  with a have "step sample_hash (OpInsert key_a) (KVCP_SetHybridEnabled True KVCP_init) =
      KVCP_SetHybridEnabled True (step sample_hash (OpInsert key_a) KVCP_init)"
    by blast
  with a b unset show ?thesis by blast
qed

section \<open>Thresholds\<close>

lemma thresholds_step_other:
  "(\<forall>p c v. op \<noteq> OpSetThreshold p c v) \<Longrightarrow> thresholds (step H op s) = thresholds s"
  by (cases op)
     (simp_all add: snd_reads KVCP_SetHybridEnabled_def KVCP_OnRowCacheMiss_def
        KVCP_OnRowCacheInsert_def KVCP_OnRowCacheEvict_def KVCP_ClearAll_def)

lemma thresholds_SetThreshold:
  "thresholds (KVCP_SetThreshold p c v s) = Set_threshold p c v (thresholds s)"
  by (simp add: KVCP_SetThreshold_def)

lemma thresholds_ClearAll: "thresholds (KVCP_ClearAll s) = thresholds s"
  by (simp add: KVCP_ClearAll_def)

lemma find_threshold_run:
  "state_ok s \<Longrightarrow>
   find_threshold (thresholds (run H ops s)) p c =
     (case last_set p c ops of Some v \<Rightarrow> Some v | None \<Rightarrow> find_threshold (thresholds s) p c)"
proof (induction p c ops arbitrary: s rule: last_set.induct)
  case (1 p c)
  then show ?case by (simp add: run_Nil)
next
  case (2 p c p' c' v ops)
  have ok: "state_ok (step H (OpSetThreshold p' c' v) s)"
    using "2.prems" by (simp add: state_ok_SetThreshold)
  show ?case
    using "2.IH" [OF ok] "2.prems"
    by (simp add: run_Cons thresholds_SetThreshold find_threshold_Set state_ok_ttable
        split: option.split)
qed (simp_all add: run_Cons state_ok_step thresholds_step_other del: step.simps
      split: option.split)

text \<open>
  Claim C7. For every \<open>(db, ns)\<close>, \<^verbatim>\<open>KVCP_GetThreshold\<close> returns the value of the
  most recent \<^verbatim>\<open>KVCP_SetThreshold\<close> for that pair when there was one (a later set
  overwrites an earlier one), and the default 3 when there was none. The first part is
  the round trip in any state; the second is the statement for every sequence of calls
  from the initial state.
\<close>

theorem GetThreshold_most_recent:
  "(state_ok s \<longrightarrow> fst (KVCP_GetThreshold p c (KVCP_SetThreshold p c v s)) = v) \<and>
   (state_ok s \<longrightarrow>
      fst (KVCP_GetThreshold p c (KVCP_SetThreshold p c w (KVCP_SetThreshold p c v s))) = w) \<and>
   fst (KVCP_GetThreshold p c KVCP_init) = 3 \<and>
   fst (KVCP_GetThreshold p c (run H ops KVCP_init)) =
     (case last_set p c ops of None \<Rightarrow> 3 | Some u \<Rightarrow> u)"
proof (intro conjI impI)
  assume ok: "state_ok s"
  then show "fst (KVCP_GetThreshold p c (KVCP_SetThreshold p c v s)) = v"
    by (simp add: GetThreshold_state thresholds_SetThreshold find_threshold_Set state_ok_ttable)
  from ok have "ttable_ok (Set_threshold p c v (thresholds s))"
    by (simp add: ttable_ok_Set state_ok_ttable)
  then show "fst (KVCP_GetThreshold p c (KVCP_SetThreshold p c w (KVCP_SetThreshold p c v s))) = w"
    by (simp add: GetThreshold_state thresholds_SetThreshold find_threshold_Set)
next
  show "fst (KVCP_GetThreshold p c KVCP_init) = 3"
    by (simp add: GetThreshold_state thresholds_init find_threshold_new
        kKVCPDefaultThreshold_def)
next
  show "fst (KVCP_GetThreshold p c (run H ops KVCP_init)) =
      (case last_set p c ops of None \<Rightarrow> 3 | Some u \<Rightarrow> u)"
    by (simp add: GetThreshold_state find_threshold_run [OF state_ok_init] thresholds_init
        find_threshold_new kKVCPDefaultThreshold_def split: option.split)
qed

theorem GetThreshold_most_recent_witness:
  "state_ok KVCP_init \<and>
   fst (KVCP_GetThreshold 4096 0 (KVCP_SetThreshold 4096 0 2 KVCP_init)) = 2 \<and>
   fst (KVCP_GetThreshold 4096 0
          (KVCP_SetThreshold 4096 0 7 (KVCP_SetThreshold 4096 0 2 KVCP_init))) = 7 \<and>
   fst (KVCP_GetThreshold 4096 1 KVCP_init) = 3 \<and>
   fst (KVCP_GetThreshold 4096 0
          (run sample_hash
             [OpSetThreshold 4096 0 2, OpInsert key_a, OpSetThreshold 4096 1 9,
              OpSetThreshold 4096 0 5, OpClearAll] KVCP_init)) = 5"
  using GetThreshold_most_recent [of KVCP_init 4096 0 2 7 sample_hash
      "[OpSetThreshold 4096 0 2, OpInsert key_a, OpSetThreshold 4096 1 9,
        OpSetThreshold 4096 0 5, OpClearAll]"]
    GetThreshold_most_recent [of KVCP_init 4096 1 2 7 sample_hash "[]"]
  by (simp add: state_ok_init)

section \<open>Clearing the statistics\<close>

lemma shards_ClearAll:
  "table_ok t \<Longrightarrow> shards (ClearAll t) = replicate kShards Map.empty"
  by (simp add: ClearAll_def table_ok_def map_replicate_const)

text \<open>
  Claim C6. \<^verbatim>\<open>KVCP_ClearAll\<close> removes every Entry from the statistics table: every
  shard's map is empty afterwards, so for every key triple and threshold
  \<^verbatim>\<open>KVCP_GetInvalidationCount\<close> and \<^verbatim>\<open>KVCP_GetCachedKeyCount\<close> return 0 and
  \<^verbatim>\<open>KVCP_ShouldSkipRowCacheInsert\<close> returns false. The threshold table is unchanged:
  \<^verbatim>\<open>KVCP_GetThreshold\<close> returns what it returned before, and a threshold set to \<open>v\<close>
  is still \<open>v\<close> after the clear.
\<close>

theorem ClearAll_stats_only:
  assumes "state_ok s"
  shows
    "shards (stats (KVCP_ClearAll s)) = replicate kShards Map.empty \<and>
     find_entry H (stats (KVCP_ClearAll s)) k = None \<and>
     fst (KVCP_GetInvalidationCount H k (KVCP_ClearAll s)) = 0 \<and>
     fst (KVCP_GetCachedKeyCount H k (KVCP_ClearAll s)) = 0 \<and>
     \<not> fst (KVCP_ShouldSkipRowCacheInsert H k t (KVCP_ClearAll s)) \<and>
     thresholds (KVCP_ClearAll s) = thresholds s \<and>
     fst (KVCP_GetThreshold p c (KVCP_ClearAll s)) = fst (KVCP_GetThreshold p c s) \<and>
     fst (KVCP_GetThreshold p c (KVCP_ClearAll (KVCP_SetThreshold p c v s))) = v"
  using assms
  by (simp add: stats_ClearAll shards_ClearAll find_entry_ClearAll state_ok_table
      GetInvalidationCount_state GetCachedKeyCount_state ShouldSkip_state GetThreshold_state
      thresholds_ClearAll thresholds_SetThreshold find_threshold_Set state_ok_ttable)

theorem ClearAll_stats_only_witness:
  "state_ok (KVCP_OnRowCacheInsert sample_hash key_a KVCP_init) \<and>
   find_entry sample_hash (stats (KVCP_OnRowCacheInsert sample_hash key_a KVCP_init)) key_a =
     Some \<lparr>cached_key_count = 1, invalidation_count = 0\<rparr> \<and>
   find_entry sample_hash
     (stats (KVCP_ClearAll (KVCP_OnRowCacheInsert sample_hash key_a KVCP_init))) key_a = None \<and>
   \<not> fst (KVCP_ShouldSkipRowCacheInsert sample_hash key_a 0
          (KVCP_ClearAll (KVCP_OnRowCacheInsert sample_hash key_a KVCP_init))) \<and>
   fst (KVCP_GetThreshold 4096 0
          (KVCP_ClearAll (KVCP_SetThreshold 4096 0 2
             (KVCP_OnRowCacheInsert sample_hash key_a KVCP_init)))) = 2"
proof -
  have ok: "state_ok (KVCP_OnRowCacheInsert sample_hash key_a KVCP_init)"
    by (simp add: state_ok_Insert state_ok_init)
  from ClearAll_stats_only [OF ok, of sample_hash key_a 0 4096 0 2] ok show ?thesis
    by (simp add: find_entry_Insert_init)
qed

section \<open>Isolation of keys\<close>

text \<open>
  Claim C10. A call of \<^verbatim>\<open>KVCP_OnRowCacheInsert\<close>, \<^verbatim>\<open>KVCP_OnRowCacheMiss\<close> or
  \<^verbatim>\<open>KVCP_OnRowCacheEvict\<close> on a key triple \<open>k\<close> leaves the Entry of every key triple
  \<open>k'\<close> that \<^verbatim>\<open>HKey::operator==\<close> tells apart from \<open>k\<close> as it was, and so what
  \<^verbatim>\<open>KVCP_ShouldSkipRowCacheInsert\<close> and \<^verbatim>\<open>KVCP_GetInvalidationCount\<close> return for
  \<open>k'\<close>; and \<^verbatim>\<open>KVCP_SetThreshold(db, ns, v)\<close> leaves what \<^verbatim>\<open>KVCP_GetThreshold\<close>
  returns for every other \<open>(db', ns')\<close> as it was.
\<close>

theorem per_key_isolation:
  assumes "state_ok s"
  shows
    "(\<not> HKey_eq (MakeKey k') (MakeKey k) \<longrightarrow>
        (\<forall>s' \<in> {KVCP_OnRowCacheInsert H k s, KVCP_OnRowCacheMiss H k s,
                  KVCP_OnRowCacheEvict H k s}.
           find_entry H (stats s') k' = find_entry H (stats s) k' \<and>
           fst (KVCP_ShouldSkipRowCacheInsert H k' t s') =
             fst (KVCP_ShouldSkipRowCacheInsert H k' t s) \<and>
           fst (KVCP_GetInvalidationCount H k' s') = fst (KVCP_GetInvalidationCount H k' s))) \<and>
     (\<not> KVCP_TKey_eq \<lparr>t_db_ptr = p', t_cf_id = c'\<rparr> \<lparr>t_db_ptr = p, t_cf_id = c\<rparr> \<longrightarrow>
        fst (KVCP_GetThreshold p' c' (KVCP_SetThreshold p c v s)) =
          fst (KVCP_GetThreshold p' c' s))"
proof (intro conjI impI)
  assume "\<not> HKey_eq (MakeKey k') (MakeKey k)"
  then have neq: "k' \<noteq> k"
    by (auto simp: HKey_eq_iff)
  note ok = state_ok_table [OF assms]
  from neq have "find_entry H (stats (KVCP_OnRowCacheInsert H k s)) k' = find_entry H (stats s) k'"
    and "find_entry H (stats (KVCP_OnRowCacheMiss H k s)) k' = find_entry H (stats s) k'"
    and "find_entry H (stats (KVCP_OnRowCacheEvict H k s)) k' = find_entry H (stats s) k'"
    by (simp_all add: stats_Insert stats_Miss stats_Evict find_entry_OnInsert
        find_entry_OnMiss find_entry_OnEvict ok)
  then show "\<forall>s' \<in> {KVCP_OnRowCacheInsert H k s, KVCP_OnRowCacheMiss H k s,
                  KVCP_OnRowCacheEvict H k s}.
           find_entry H (stats s') k' = find_entry H (stats s) k' \<and>
           fst (KVCP_ShouldSkipRowCacheInsert H k' t s') =
             fst (KVCP_ShouldSkipRowCacheInsert H k' t s) \<and>
           fst (KVCP_GetInvalidationCount H k' s') = fst (KVCP_GetInvalidationCount H k' s)"
    by (simp add: ShouldSkip_state GetInvalidationCount_state)
next
  assume "\<not> KVCP_TKey_eq \<lparr>t_db_ptr = p', t_cf_id = c'\<rparr> \<lparr>t_db_ptr = p, t_cf_id = c\<rparr>"
  then have "\<not> (p' = p \<and> c' = c)"
    by (simp add: KVCP_TKey_eq_def)
  then show "fst (KVCP_GetThreshold p' c' (KVCP_SetThreshold p c v s)) =
          fst (KVCP_GetThreshold p' c' s)"
    by (auto simp: GetThreshold_state thresholds_SetThreshold find_threshold_Set
        state_ok_ttable [OF assms])
qed

text \<open>
  \<open>key_a\<close> and \<open>key_b\<close> differ in the column family only: with an Entry for \<open>key_a\<close>, a
  miss on \<open>key_b\<close> changes nothing for \<open>key_a\<close>, and a threshold set for column family 1
  leaves the default for column family 0.
\<close>

theorem per_key_isolation_witness:
  "state_ok (KVCP_OnRowCacheInsert sample_hash key_a KVCP_init) \<and>
   \<not> HKey_eq (MakeKey key_a) (MakeKey key_b) \<and>
   find_entry sample_hash (stats (KVCP_OnRowCacheInsert sample_hash key_b
       (KVCP_OnRowCacheInsert sample_hash key_a KVCP_init))) key_a =
     Some \<lparr>cached_key_count = 1, invalidation_count = 0\<rparr> \<and>
   find_entry sample_hash (stats (KVCP_OnRowCacheEvict sample_hash key_b
       (KVCP_OnRowCacheInsert sample_hash key_a KVCP_init))) key_a =
     Some \<lparr>cached_key_count = 1, invalidation_count = 0\<rparr> \<and>
   \<not> KVCP_TKey_eq \<lparr>t_db_ptr = 4096, t_cf_id = 0\<rparr> \<lparr>t_db_ptr = 4096, t_cf_id = 1\<rparr> \<and>
   fst (KVCP_GetThreshold 4096 0 (KVCP_SetThreshold 4096 1 9
       (KVCP_OnRowCacheInsert sample_hash key_a KVCP_init))) = 3"
proof -
  have ok: "state_ok (KVCP_OnRowCacheInsert sample_hash key_a KVCP_init)"
    by (simp add: state_ok_Insert state_ok_init)
  have neq: "\<not> HKey_eq (MakeKey key_a) (MakeKey key_b)"
    by (simp add: HKey_eq_def MakeKey_def key_a_def key_b_def)
  have tneq: "\<not> KVCP_TKey_eq \<lparr>t_db_ptr = 4096, t_cf_id = 0\<rparr> \<lparr>t_db_ptr = 4096, t_cf_id = 1\<rparr>"
    by (simp add: KVCP_TKey_eq_def)
  have default: "fst (KVCP_GetThreshold 4096 0
      (KVCP_OnRowCacheInsert sample_hash key_a KVCP_init)) = 3"
    by (simp add: GetThreshold_state KVCP_OnRowCacheInsert_def thresholds_init
        find_threshold_new kKVCPDefaultThreshold_def)
  from per_key_isolation [OF ok, of key_a key_b sample_hash 0 4096 0 4096 1 9] neq tneq default
  show ?thesis
    using ok by (simp add: find_entry_Insert_init)
qed

section \<open>The counters along a sequence of calls\<close>

lemma find_entry_step:
  assumes "state_ok s"
  shows "find_entry H (stats (step H op s)) k =
     (if op = OpInsert k
      then Some (case find_entry H (stats s) k of
                   None \<Rightarrow> \<lparr>cached_key_count = 1, invalidation_count = 0\<rparr>
                 | Some e \<Rightarrow> e\<lparr>cached_key_count := cached_key_count e + 1\<rparr>)
      else if op = OpMiss k
      then (case find_entry H (stats s) k of
              None \<Rightarrow> None
            | Some e \<Rightarrow>
                if cached_key_count e > 0
                then Some (e\<lparr>invalidation_count := invalidation_count e + 1\<rparr>)
                else Some e)
      else if op = OpEvict k
      then (case find_entry H (stats s) k of
              None \<Rightarrow> None
            | Some e \<Rightarrow>
                if cached_key_count e > 1
                then Some (e\<lparr>cached_key_count := cached_key_count e - 1\<rparr>)
                else None)
      else if op = OpClearAll then None
      else find_entry H (stats s) k)"
proof -
  note ok = state_ok_table [OF assms]
  show ?thesis
  proof (cases op)
    case (OpMiss k')
    then show ?thesis by (simp add: stats_Miss find_entry_OnMiss ok)
  next
    case (OpInsert k')
    then show ?thesis by (simp add: stats_Insert find_entry_OnInsert ok)
  next
    case (OpEvict k')
    then show ?thesis by (simp add: stats_Evict find_entry_OnEvict ok)
  next
    case OpClearAll
    then show ?thesis by (simp add: stats_ClearAll find_entry_ClearAll ok)
  qed (simp_all add: snd_reads stats_SetThreshold stats_SetHybridEnabled)
qed

lemma run_replicate_Suc:
  "run H (replicate (Suc n) op) s = step H op (run H (replicate n op) s)"
  by (simp add: run_def fold_replicate funpow_swap1 del: replicate.simps)

lemma inserts_run:
  assumes "state_ok s" and "find_entry H (stats s) k = None"
  shows "find_entry H (stats (run H (replicate (Suc n) (OpInsert k)) s)) k =
     Some \<lparr>cached_key_count = of_nat (Suc n), invalidation_count = 0\<rparr>"
proof (induction n)
  case 0
  from assms show ?case
    unfolding run_replicate_Suc by (simp add: run_Nil find_entry_step del: step.simps)
next
  case (Suc n)
  have ok: "state_ok (run H (replicate (Suc n) (OpInsert k)) s)"
    using assms(1) by (simp only: state_ok_run)
  show ?case
    by (subst run_replicate_Suc)
       (simp add: find_entry_step [OF ok] Suc.IH ac_simps del: replicate.simps step.simps)
qed

lemma misses_run:
  assumes "state_ok s" and "find_entry H (stats s) k = Some e" and "0 < cached_key_count e"
  shows "find_entry H (stats (run H (replicate n (OpMiss k)) s)) k =
     Some (e\<lparr>invalidation_count := invalidation_count e + of_nat n\<rparr>)"
proof (induction n)
  case 0
  from assms show ?case by (simp add: run_Nil)
next
  case (Suc n)
  have ok: "state_ok (run H (replicate n (OpMiss k)) s)"
    using assms(1) by (simp only: state_ok_run)
  show ?case
    using assms(3)
    by (subst run_replicate_Suc)
       (simp add: find_entry_step [OF ok] Suc.IH ac_simps del: replicate.simps step.simps)
qed

lemma Miss_absent:
  "find_entry H (stats s) k = None \<Longrightarrow> KVCP_OnRowCacheMiss H k s = s"
  by (simp add: KVCP_OnRowCacheMiss_def OnMiss_def find_entry_def Let_def)

lemma misses_run_absent:
  assumes "find_entry H (stats s) k = None"
  shows "run H (replicate n (OpMiss k)) s = s"
proof (induction n)
  case 0
  show ?case by (simp add: run_Nil)
next
  case (Suc n)
  with assms show ?case
    by (simp only: run_replicate_Suc step.simps Miss_absent)
qed

lemma two_to_32: "of_nat 4294967296 = (0 :: 32 word)"
  by simp

lemma inserts_wrap:
  "find_entry sample_hash (stats (run sample_hash (replicate 4294967296 (OpInsert key_a)) KVCP_init)) key_a
     = Some \<lparr>cached_key_count = 0, invalidation_count = 0\<rparr>"
proof -
  have "Suc 4294967295 = 4294967296" by simp
  with inserts_run [OF state_ok_init find_entry_init, where n = 4294967295 and H = sample_hash
      and k = key_a]
  show ?thesis by (simp only: two_to_32)
qed

section \<open>Eviction\<close>

lemma Evict_absent:
  "find_entry H (stats s) k = None \<Longrightarrow> KVCP_OnRowCacheEvict H k s = s"
  by (simp add: KVCP_OnRowCacheEvict_def OnEvict_def find_entry_def Let_def)

lemma find_entry_Evict:
  "state_ok s \<Longrightarrow>
   find_entry H (stats (KVCP_OnRowCacheEvict H k s)) k =
     (case find_entry H (stats s) k of
        None \<Rightarrow> None
      | Some e \<Rightarrow>
          if cached_key_count e > 1
          then Some (e\<lparr>cached_key_count := cached_key_count e - 1\<rparr>)
          else None)"
  by (simp add: stats_Evict find_entry_OnEvict state_ok_table)

lemma find_entry_Insert:
  "state_ok s \<Longrightarrow>
   find_entry H (stats (KVCP_OnRowCacheInsert H k s)) k =
     Some (case find_entry H (stats s) k of
             None \<Rightarrow> \<lparr>cached_key_count = 1, invalidation_count = 0\<rparr>
           | Some e \<Rightarrow> e\<lparr>cached_key_count := cached_key_count e + 1\<rparr>)"
  by (simp add: stats_Insert find_entry_OnInsert state_ok_table)

lemma find_entry_Miss:
  "state_ok s \<Longrightarrow>
   find_entry H (stats (KVCP_OnRowCacheMiss H k s)) k =
     (case find_entry H (stats s) k of
        None \<Rightarrow> None
      | Some e \<Rightarrow>
          if cached_key_count e > 0
          then Some (e\<lparr>invalidation_count := invalidation_count e + 1\<rparr>)
          else Some e)"
  by (simp add: stats_Miss find_entry_OnMiss state_ok_table)

text \<open>
  Claim C4, as the code has it. \<^verbatim>\<open>KVCP_OnRowCacheEvict\<close> is a no-op when no Entry
  exists. When the Entry's \<open>cached_key_count\<close> is at most 1 (that is 1, or 0 once the
  32-bit counter has wrapped) it deletes the Entry, so that
  \<^verbatim>\<open>KVCP_GetInvalidationCount\<close> then returns 0 and
  \<^verbatim>\<open>KVCP_ShouldSkipRowCacheInsert\<close> returns false for every threshold. When the
  count is greater than 1 it subtracts one from it and keeps \<open>invalidation_count\<close>. From
  a key with no Entry, insert, insert, evict leaves the Entry with \<open>cached_key_count = 1\<close>,
  and a second evict removes it.
\<close>

theorem OnRowCacheEvict_cases:
  assumes "state_ok s"
  shows
    "(find_entry H (stats s) k = None \<longrightarrow> KVCP_OnRowCacheEvict H k s = s) \<and>
     (\<forall>e. find_entry H (stats s) k = Some e \<and> cached_key_count e \<le> 1 \<longrightarrow>
        find_entry H (stats (KVCP_OnRowCacheEvict H k s)) k = None \<and>
        fst (KVCP_GetInvalidationCount H k (KVCP_OnRowCacheEvict H k s)) = 0 \<and>
        (\<forall>t. \<not> fst (KVCP_ShouldSkipRowCacheInsert H k t (KVCP_OnRowCacheEvict H k s)))) \<and>
     (\<forall>e. find_entry H (stats s) k = Some e \<and> 1 < cached_key_count e \<longrightarrow>
        find_entry H (stats (KVCP_OnRowCacheEvict H k s)) k =
          Some \<lparr>cached_key_count = cached_key_count e - 1,
                invalidation_count = invalidation_count e\<rparr>) \<and>
     (find_entry H (stats s) k = None \<longrightarrow>
        find_entry H (stats (KVCP_OnRowCacheEvict H k
            (KVCP_OnRowCacheInsert H k (KVCP_OnRowCacheInsert H k s)))) k =
          Some \<lparr>cached_key_count = 1, invalidation_count = 0\<rparr> \<and>
        find_entry H (stats (KVCP_OnRowCacheEvict H k (KVCP_OnRowCacheEvict H k
            (KVCP_OnRowCacheInsert H k (KVCP_OnRowCacheInsert H k s))))) k = None)"
proof (intro conjI allI impI)
  assume "find_entry H (stats s) k = None"
  then show "KVCP_OnRowCacheEvict H k s = s" by (rule Evict_absent)
next
  fix e assume e: "find_entry H (stats s) k = Some e \<and> cached_key_count e \<le> 1"
  then have "\<not> 1 < cached_key_count e" by (simp add: not_less)
  with e show gone: "find_entry H (stats (KVCP_OnRowCacheEvict H k s)) k = None"
    by (simp add: find_entry_Evict [OF assms])
  from gone show "fst (KVCP_GetInvalidationCount H k (KVCP_OnRowCacheEvict H k s)) = 0"
    by (simp add: GetInvalidationCount_state)
  fix t
  from gone show "\<not> fst (KVCP_ShouldSkipRowCacheInsert H k t (KVCP_OnRowCacheEvict H k s))"
    by (simp add: ShouldSkip_state)
next
  fix e assume "find_entry H (stats s) k = Some e \<and> 1 < cached_key_count e"
  then show "find_entry H (stats (KVCP_OnRowCacheEvict H k s)) k =
      Some \<lparr>cached_key_count = cached_key_count e - 1,
            invalidation_count = invalidation_count e\<rparr>"
    by (cases e) (simp add: find_entry_Evict [OF assms])
next
  assume absent: "find_entry H (stats s) k = None"
  let ?s2 = "KVCP_OnRowCacheInsert H k (KVCP_OnRowCacheInsert H k s)"
  have ok1: "state_ok (KVCP_OnRowCacheInsert H k s)"
    using assms by (simp add: state_ok_Insert)
  have ok2: "state_ok ?s2"
    using ok1 by (simp add: state_ok_Insert)
  have two: "find_entry H (stats ?s2) k = Some \<lparr>cached_key_count = 2, invalidation_count = 0\<rparr>"
    using absent by (simp add: find_entry_Insert [OF ok1] find_entry_Insert [OF assms])
  then show one: "find_entry H (stats (KVCP_OnRowCacheEvict H k ?s2)) k =
      Some \<lparr>cached_key_count = 1, invalidation_count = 0\<rparr>"
    by (simp add: find_entry_Evict [OF ok2])
  have ok3: "state_ok (KVCP_OnRowCacheEvict H k ?s2)"
    using ok2 by (simp add: state_ok_Evict)
  from one show "find_entry H (stats (KVCP_OnRowCacheEvict H k (KVCP_OnRowCacheEvict H k ?s2))) k
      = None"
    by (simp add: find_entry_Evict [OF ok3])
qed

text \<open>
  After one insert of \<open>key_a\<close> the count is 1 and an evict removes the Entry; after two
  inserts the count is 2 and an evict leaves it at 1.
\<close>

theorem OnRowCacheEvict_cases_witness:
  "state_ok KVCP_init \<and>
   KVCP_OnRowCacheEvict sample_hash key_a KVCP_init = KVCP_init \<and>
   find_entry sample_hash (stats (KVCP_OnRowCacheEvict sample_hash key_a
       (KVCP_OnRowCacheInsert sample_hash key_a KVCP_init))) key_a = None \<and>
   find_entry sample_hash (stats (KVCP_OnRowCacheEvict sample_hash key_a
       (KVCP_OnRowCacheInsert sample_hash key_a
          (KVCP_OnRowCacheInsert sample_hash key_a KVCP_init)))) key_a =
     Some \<lparr>cached_key_count = 1, invalidation_count = 0\<rparr>"
proof -
  have ok1: "state_ok (KVCP_OnRowCacheInsert sample_hash key_a KVCP_init)"
    by (simp add: state_ok_Insert state_ok_init)
  have one: "find_entry sample_hash
      (stats (KVCP_OnRowCacheInsert sample_hash key_a KVCP_init)) key_a =
      Some \<lparr>cached_key_count = 1, invalidation_count = 0\<rparr>"
    by (rule find_entry_Insert_init)
  from OnRowCacheEvict_cases [OF state_ok_init, of sample_hash key_a]
    OnRowCacheEvict_cases [OF ok1, of sample_hash key_a] one
  show ?thesis
    by (simp add: state_ok_init find_entry_init)
qed

text \<open>
  The claim as stated fails where the counter has wrapped: \<open>2 ^ 32\<close> inserts of one key
  leave its Entry with \<open>cached_key_count = 0\<close>, which is not 1, and an evict then deletes
  the Entry instead of decrementing the count.
\<close>

theorem OnRowCacheEvict_counterexample:
  "find_entry sample_hash
     (stats (run sample_hash (replicate 4294967296 (OpInsert key_a)) KVCP_init)) key_a =
     Some \<lparr>cached_key_count = 0, invalidation_count = 0\<rparr> \<and>
   find_entry sample_hash
     (stats (KVCP_OnRowCacheEvict sample_hash key_a
        (run sample_hash (replicate 4294967296 (OpInsert key_a)) KVCP_init))) key_a = None"
proof -
  have ok: "state_ok (run sample_hash (replicate 4294967296 (OpInsert key_a)) KVCP_init)"
    by (simp only: state_ok_run state_ok_init)
  show ?thesis
    by (simp only: find_entry_Evict [OF ok] inserts_wrap) simp
qed

section \<open>Misses\<close>

lemma Miss_uncached:
  "find_entry H (stats s) k = Some e \<Longrightarrow> cached_key_count e = 0 \<Longrightarrow>
   KVCP_OnRowCacheMiss H k s = s"
  by (simp add: KVCP_OnRowCacheMiss_def OnMiss_def find_entry_def Let_def)

lemma insert_then_misses:
  assumes "state_ok s" and "find_entry H (stats s) k = None"
  shows "fst (KVCP_GetInvalidationCount H k
            (run H (OpInsert k # replicate N (OpMiss k)) s)) = of_nat N"
proof -
  have ok: "state_ok (KVCP_OnRowCacheInsert H k s)"
    using assms(1) by (simp add: state_ok_Insert)
  have one: "find_entry H (stats (KVCP_OnRowCacheInsert H k s)) k =
      Some \<lparr>cached_key_count = 1, invalidation_count = 0\<rparr>"
    using assms(2) by (simp add: find_entry_Insert [OF assms(1)])
  have "find_entry H (stats (run H (replicate N (OpMiss k)) (KVCP_OnRowCacheInsert H k s))) k =
      Some \<lparr>cached_key_count = 1, invalidation_count = of_nat N\<rparr>"
    using misses_run [OF ok one, of N] by simp
  then show ?thesis
    by (simp add: run_Cons GetInvalidationCount_state del: replicate.simps)
qed

text \<open>
  Claim C5, as the code has it. The miss hook (\<^verbatim>\<open>KVCP_OnRowCacheMiss\<close> in the
  sources) adds one to the key's \<open>invalidation_count\<close> exactly when an Entry exists with
  \<open>cached_key_count > 0\<close>, and changes nothing when the Entry has count 0 or when no
  Entry exists. So after one insert of a key that had no Entry, followed by \<open>N\<close> misses
  on it, \<^verbatim>\<open>KVCP_GetInvalidationCount\<close> returns \<open>N\<close> modulo \<open>2 ^ 32\<close> (which is \<open>N\<close>
  for \<open>N < 2 ^ 32\<close>); and any number of misses on a key with no Entry leaves the state
  as it was, the count read for the key being 0.
\<close>

theorem OnRowCacheMiss_counts:
  assumes "state_ok s"
  shows
    "(\<forall>e. find_entry H (stats s) k = Some e \<and> 0 < cached_key_count e \<longrightarrow>
        find_entry H (stats (KVCP_OnRowCacheMiss H k s)) k =
          Some \<lparr>cached_key_count = cached_key_count e,
                invalidation_count = invalidation_count e + 1\<rparr>) \<and>
     (\<forall>e. find_entry H (stats s) k = Some e \<and> cached_key_count e = 0 \<longrightarrow>
        KVCP_OnRowCacheMiss H k s = s) \<and>
     (find_entry H (stats s) k = None \<longrightarrow> KVCP_OnRowCacheMiss H k s = s) \<and>
     (find_entry H (stats s) k = None \<longrightarrow>
        unat (fst (KVCP_GetInvalidationCount H k
                (run H (OpInsert k # replicate N (OpMiss k)) s))) = N mod 2 ^ 32) \<and>
     (find_entry H (stats s) k = None \<longrightarrow> N < 2 ^ 32 \<longrightarrow>
        unat (fst (KVCP_GetInvalidationCount H k
                (run H (OpInsert k # replicate N (OpMiss k)) s))) = N) \<and>
     (find_entry H (stats s) k = None \<longrightarrow>
        run H (replicate N (OpMiss k)) s = s \<and>
        fst (KVCP_GetInvalidationCount H k (run H (replicate N (OpMiss k)) s)) = 0)"
proof (intro conjI allI impI)
  fix e assume "find_entry H (stats s) k = Some e \<and> 0 < cached_key_count e"
  then show "find_entry H (stats (KVCP_OnRowCacheMiss H k s)) k =
      Some \<lparr>cached_key_count = cached_key_count e,
            invalidation_count = invalidation_count e + 1\<rparr>"
    by (cases e) (simp add: find_entry_Miss [OF assms])
next
  fix e assume "find_entry H (stats s) k = Some e \<and> cached_key_count e = 0"
  then show "KVCP_OnRowCacheMiss H k s = s"
    by (simp add: Miss_uncached)
next
  assume "find_entry H (stats s) k = None"
  then show "KVCP_OnRowCacheMiss H k s = s" by (rule Miss_absent)
next
  assume absent: "find_entry H (stats s) k = None"
  show "unat (fst (KVCP_GetInvalidationCount H k
      (run H (OpInsert k # replicate N (OpMiss k)) s))) = N mod 2 ^ 32"
    by (simp only: insert_then_misses [OF assms absent] unat_of_nat) simp
next
  assume absent: "find_entry H (stats s) k = None" and "N < 2 ^ 32"
  then show "unat (fst (KVCP_GetInvalidationCount H k
      (run H (OpInsert k # replicate N (OpMiss k)) s))) = N"
    by (simp only: insert_then_misses [OF assms absent] unat_of_nat) simp
next
  assume absent: "find_entry H (stats s) k = None"
  then show same: "run H (replicate N (OpMiss k)) s = s"
    by (rule misses_run_absent)
  from absent show "fst (KVCP_GetInvalidationCount H k (run H (replicate N (OpMiss k)) s)) = 0"
    by (simp only: same) (simp add: GetInvalidationCount_state)
qed

text \<open>
  One insert of \<open>key_a\<close> and three misses: the count read is 3. Three misses on \<open>key_b\<close>,
  never inserted: the count read is 0.
\<close>

theorem OnRowCacheMiss_counts_witness:
  "state_ok KVCP_init \<and>
   find_entry sample_hash (stats KVCP_init) key_a = None \<and>
   unat (fst (KVCP_GetInvalidationCount sample_hash key_a
           (run sample_hash (OpInsert key_a # replicate 3 (OpMiss key_a)) KVCP_init))) = 3 \<and>
   fst (KVCP_GetInvalidationCount sample_hash key_b
          (run sample_hash (replicate 3 (OpMiss key_b)) KVCP_init)) = 0 \<and>
   find_entry sample_hash (stats (KVCP_OnRowCacheMiss sample_hash key_a
       (KVCP_OnRowCacheInsert sample_hash key_a KVCP_init))) key_a =
     Some \<lparr>cached_key_count = 1, invalidation_count = 1\<rparr>"
proof -
  have ok1: "state_ok (KVCP_OnRowCacheInsert sample_hash key_a KVCP_init)"
    by (simp add: state_ok_Insert state_ok_init)
  have one: "find_entry sample_hash
      (stats (KVCP_OnRowCacheInsert sample_hash key_a KVCP_init)) key_a =
      Some \<lparr>cached_key_count = 1, invalidation_count = 0\<rparr>"
    by (rule find_entry_Insert_init)
  have small: "(3::nat) < 2 ^ 32" by simp
  have absent_a: "find_entry sample_hash (stats KVCP_init) key_a = None"
    and absent_b: "find_entry sample_hash (stats KVCP_init) key_b = None"
    by (rule find_entry_init)+
  from OnRowCacheMiss_counts [OF state_ok_init, of sample_hash key_a 3] absent_a small
  have three: "unat (fst (KVCP_GetInvalidationCount sample_hash key_a
      (run sample_hash (OpInsert key_a # replicate 3 (OpMiss key_a)) KVCP_init))) = 3"
    by blast
  from OnRowCacheMiss_counts [OF state_ok_init, of sample_hash key_b 3] absent_b
  have none: "fst (KVCP_GetInvalidationCount sample_hash key_b
      (run sample_hash (replicate 3 (OpMiss key_b)) KVCP_init)) = 0"
    by blast
  from OnRowCacheMiss_counts [OF ok1, of sample_hash key_a 3] one
  have bumped: "find_entry sample_hash (stats (KVCP_OnRowCacheMiss sample_hash key_a
      (KVCP_OnRowCacheInsert sample_hash key_a KVCP_init))) key_a =
      Some \<lparr>cached_key_count = 1, invalidation_count = 1\<rparr>"
    by simp
  from state_ok_init absent_a three none bumped show ?thesis by blast
qed

text \<open>
  The claim as stated fails at \<open>N = 2 ^ 32\<close>: after one insert and \<open>2 ^ 32\<close> misses the
  32-bit counter is back at 0, so the count read is 0 and not \<open>N\<close>.
\<close>

theorem OnRowCacheMiss_counterexample:
  "fst (KVCP_GetInvalidationCount sample_hash key_a
          (run sample_hash (OpInsert key_a # replicate 4294967296 (OpMiss key_a)) KVCP_init)) = 0 \<and>
   unat (fst (KVCP_GetInvalidationCount sample_hash key_a
          (run sample_hash (OpInsert key_a # replicate 4294967296 (OpMiss key_a)) KVCP_init)))
     \<noteq> 4294967296"
  by (simp only: insert_then_misses [OF state_ok_init find_entry_init] two_to_32) simp

section \<open>The invariant of the data model\<close>

lemma one_le_word_iff: "1 \<le> (x :: 32 word) \<longleftrightarrow> x \<noteq> 0"
  by (simp add: not_less [symmetric])

lemma entry_inv_iff:
  "entry_inv H s k \<longleftrightarrow> (\<forall>e. find_entry H (stats s) k = Some e \<longrightarrow> cached_key_count e \<noteq> 0)"
  by (cases "find_entry H (stats s) k")
     (simp_all add: entry_inv_def GetCachedKeyCount_state one_le_word_iff)

lemma unat_incr: "unat (x :: 32 word) < n \<Longrightarrow> n < 2 ^ 32 \<Longrightarrow> unat (x + 1) = Suc (unat x)"
  by (simp add: unat_word_ariths)

lemma incr_zero_iff: "(x :: 32 word) + 1 = 0 \<longleftrightarrow> x = 4294967295"
proof -
  have "(4294967295 :: 32 word) = - 1" by simp
  moreover have "x + 1 = 0 \<longleftrightarrow> x = - 1"
    by (rule eq_neg_iff_add_eq_0 [symmetric])
  ultimately show ?thesis by (simp only:)
qed

lemma unat_decr: "1 < (x :: 32 word) \<Longrightarrow> unat (x - 1) = unat x - 1 \<and> 0 < unat (x - 1)"
  by (metis One_nat_def less_imp_le unat_1 unat_sub word_less_nat_alt zero_less_diff)

text \<open>
  Along a sequence of calls from the initial state, the cached count of a key that has
  an Entry is at least 1 and at most the number of inserts of the key so far, as long as
  that number is below \<open>2 ^ 32\<close>.
\<close>

lemma cached_bounds_run:
  assumes "count_list ops (OpInsert k) < 2 ^ 32"
  shows "case find_entry H (stats (run H ops KVCP_init)) k of
           None \<Rightarrow> True
         | Some e \<Rightarrow> 0 < unat (cached_key_count e) \<and>
                     unat (cached_key_count e) \<le> count_list ops (OpInsert k)"
  using assms
proof (induction ops rule: rev_induct)
  case Nil
  show ?case by (simp add: run_Nil find_entry_init)
next
  case (snoc op ops)
  let ?s = "run H ops KVCP_init"
  let ?n = "count_list ops (OpInsert k)"
  have ok: "state_ok ?s"
    by (simp only: state_ok_run state_ok_init)
  from snoc.prems have less: "?n < 2 ^ 32"
    by (simp split: if_splits)
  note IH = snoc.IH [OF less]
  show ?case
  proof (cases "find_entry H (stats ?s) k")
    case None
    then show ?thesis
      by (simp add: run_snoc find_entry_step [OF ok] del: step.simps)
  next
    case (Some e)
    with IH have pos: "0 < unat (cached_key_count e)" and le: "unat (cached_key_count e) \<le> ?n"
      by simp_all
    show ?thesis
    proof (cases "op = OpInsert k")
      case True
      with snoc.prems have "Suc ?n < 2 ^ 32" by simp
      with le have "unat (cached_key_count e + 1) = Suc (unat (cached_key_count e))"
        by (intro unat_incr [of _ "Suc ?n"]) simp_all
      with True Some le show ?thesis
        by (simp add: run_snoc find_entry_step [OF ok] del: step.simps)
    next
      case False
      with Some pos le unat_decr [of "cached_key_count e"] show ?thesis
        by (auto simp: run_snoc find_entry_step [OF ok] simp del: step.simps)
    qed
  qed
qed

lemma entry_inv_run:
  assumes "count_list ops (OpInsert k) < 2 ^ 32"
  shows "entry_inv H (run H ops KVCP_init) k"
proof -
  have "cached_key_count e \<noteq> 0" if "find_entry H (stats (run H ops KVCP_init)) k = Some e" for e
    using cached_bounds_run [OF assms, of H] that by auto
  then show ?thesis by (simp add: entry_inv_iff)
qed

lemma entry_inv_step:
  assumes "state_ok s" and "entry_inv H s k"
    and "\<not> (op = OpInsert k \<and> fst (KVCP_GetCachedKeyCount H k s) = 4294967295)"
  shows "entry_inv H (step H op s) k"
proof (cases "find_entry H (stats s) k")
  case None
  then show ?thesis
    by (simp add: entry_inv_iff find_entry_step [OF assms(1)] del: step.simps)
next
  case (Some e)
  with assms(2) have nz: "cached_key_count e \<noteq> 0"
    by (simp add: entry_inv_iff)
  from Some assms(3) have "op = OpInsert k \<Longrightarrow> cached_key_count e + 1 \<noteq> 0"
    by (simp add: GetCachedKeyCount_state incr_zero_iff)
  moreover have "1 < cached_key_count e \<Longrightarrow> cached_key_count e - 1 \<noteq> 0"
    by auto
  ultimately show ?thesis
    using Some nz
    by (auto simp: entry_inv_iff find_entry_step [OF assms(1)] simp del: step.simps)
qed

text \<open>
  Claim C2, as the code has it. In every state reached from the empty table by a
  sequence of calls with fewer than \<open>2 ^ 32\<close> inserts of a key triple, an Entry exists for
  that key if and only if its cached count is at least 1, and every Entry found has
  \<open>cached_key_count \<ge> 1\<close>. Every call keeps this invariant for a key, except an insert of
  that key when its cached count is \<open>2 ^ 32 - 1\<close>: the 32-bit counter wraps to 0 and the
  Entry stays.
\<close>

theorem entry_iff_cached_bounded:
  "(count_list ops (OpInsert k) < 2 ^ 32 \<longrightarrow>
      entry_inv H (run H ops KVCP_init) k \<and>
      (\<forall>e. find_entry H (stats (run H ops KVCP_init)) k = Some e \<longrightarrow> 1 \<le> cached_key_count e)) \<and>
   (state_ok s \<longrightarrow> entry_inv H s k \<longrightarrow>
      \<not> (op = OpInsert k \<and> fst (KVCP_GetCachedKeyCount H k s) = 4294967295) \<longrightarrow>
      entry_inv H (step H op s) k)"
proof (intro conjI impI allI)
  assume few: "count_list ops (OpInsert k) < 2 ^ 32"
  then show inv: "entry_inv H (run H ops KVCP_init) k"
    by (rule entry_inv_run)
  fix e assume "find_entry H (stats (run H ops KVCP_init)) k = Some e"
  with inv show "1 \<le> cached_key_count e"
    by (simp add: entry_inv_iff one_le_word_iff)
next
  assume "state_ok s" and "entry_inv H s k"
    and "\<not> (op = OpInsert k \<and> fst (KVCP_GetCachedKeyCount H k s) = 4294967295)"
  then show "entry_inv H (step H op s) k"
    by (rule entry_inv_step)
qed

text \<open>
  Two inserts, an evict and a miss of \<open>key_a\<close>: the invariant holds, and it holds after
  one insert into the empty table.
\<close>

theorem entry_iff_cached_bounded_witness:
  "count_list [OpInsert key_a, OpInsert key_a, OpEvict key_a, OpMiss key_a] (OpInsert key_a)
     < 2 ^ 32 \<and>
   entry_inv sample_hash
     (run sample_hash [OpInsert key_a, OpInsert key_a, OpEvict key_a, OpMiss key_a] KVCP_init)
     key_a \<and>
   state_ok KVCP_init \<and>
   entry_inv sample_hash KVCP_init key_a \<and>
   entry_inv sample_hash (step sample_hash (OpInsert key_a) KVCP_init) key_a"
proof -
  have few: "count_list [OpInsert key_a, OpInsert key_a, OpEvict key_a, OpMiss key_a]
      (OpInsert key_a) < 2 ^ 32"
    by simp
  have empty: "entry_inv sample_hash KVCP_init key_a"
    by (simp add: entry_inv_iff find_entry_init)
  have first: "\<not> (OpInsert key_a = OpInsert key_a \<and>
      fst (KVCP_GetCachedKeyCount sample_hash key_a KVCP_init) = 4294967295)"
    by (simp add: GetCachedKeyCount_state find_entry_init)
  from entry_iff_cached_bounded [of "[OpInsert key_a, OpInsert key_a, OpEvict key_a, OpMiss key_a]"
      key_a sample_hash KVCP_init "OpInsert key_a"] few empty first state_ok_init
  show ?thesis by blast
qed

text \<open>
  The claim as stated fails in a reachable state: \<open>2 ^ 32\<close> inserts of \<open>key_a\<close> into the
  empty table leave an Entry for it whose \<open>cached_key_count\<close> is 0.
\<close>

theorem entry_iff_cached_counterexample:
  "find_entry sample_hash
     (stats (run sample_hash (replicate 4294967296 (OpInsert key_a)) KVCP_init)) key_a \<noteq> None \<and>
   \<not> 1 \<le> fst (KVCP_GetCachedKeyCount sample_hash key_a
            (run sample_hash (replicate 4294967296 (OpInsert key_a)) KVCP_init)) \<and>
   \<not> entry_inv sample_hash
       (run sample_hash (replicate 4294967296 (OpInsert key_a)) KVCP_init) key_a"
  by (simp only: entry_inv_def GetCachedKeyCount_state inserts_wrap) simp

end
